theory Spec2Isabelle
  imports Complex_Main "HOL-Library.Multiset"
begin

section \<open>Cohen's d for independent samples\<close>

text \<open>
  The effect-size notebook defines one function:
  \<^verbatim>\<open>
  from numpy import mean
  from numpy import var
  from math import sqrt

  def cohend(d1, d2):
      n1, n2 = len(d1), len(d2)
      s1, s2 = var(d1, ddof=1), var(d2, ddof=1)
      s = sqrt(((n1 - 1) * s1 + (n2 - 1) * s2) / (n1 + n2 - 2))
      u1, u2 = mean(d1), mean(d2)
      return (u1 - u2) / s
  \<close>
  A sample is a sequence of numbers, here a \<^typ>\<open>real list\<close>; the observations enter
  the computation as the doubles nearest to them. Every value the function computes is a
  double: a finite one is the real number it stands for, and infinities and \<open>nan\<close> are
  constructors of their own. The sign of a zero is not modelled.
\<close>

subsection \<open>Float values\<close>

datatype pyfloat = Finite real | PosInf | NegInf | NaN

datatype py_error = ValueError

fun isfinite :: "pyfloat \<Rightarrow> bool" where
  "isfinite (Finite a) = True"
| "isfinite PosInf = False"
| "isfinite NegInf = False"
| "isfinite NaN = False"

fun isinf :: "pyfloat \<Rightarrow> bool" where
  "isinf PosInf = True"
| "isinf NegInf = True"
| "isinf (Finite a) = False"
| "isinf NaN = False"

fun fneg :: "pyfloat \<Rightarrow> pyfloat" where
  "fneg (Finite a) = Finite (- a)"
| "fneg PosInf = NegInf"
| "fneg NegInf = PosInf"
| "fneg NaN = NaN"

subsection \<open>Rounding\<close>

text \<open>
  A rounding takes the exact result of an operation to the float that the operation
  returns. \<open>binary64\<close> is IEEE 754 double precision, rounding to nearest with ties to the
  even significand: 53 significant bits, gradual underflow down to \<open>2^-1074\<close>, overflow
  to an infinity once the rounded magnitude reaches \<open>2^1024\<close>. \<open>quantum x\<close> is the exponent
  of the spacing of the doubles around \<open>x\<close>. \<open>exact\<close> rounds nothing: it is real arithmetic,
  the idealisation in which the formulas of the specification are stated.
\<close>

type_synonym rounding = "real \<Rightarrow> pyfloat"

definition round_even :: "real \<Rightarrow> int" where
  "round_even q =
     (let f = \<lfloor>q\<rfloor>; d = q - of_int f
      in if d < 1 / 2 then f else if 1 / 2 < d then f + 1 else if even f then f else f + 1)"

definition quantum :: "real \<Rightarrow> int" where
  "quantum x = max \<lfloor>log 2 \<bar>x\<bar>\<rfloor> (- 1022) - 52"

definition max_binade :: int where
  "max_binade = 1024"

definition binary64 :: rounding where
  "binary64 x =
     (if x = 0 then Finite 0
      else let e = quantum x; y = of_int (round_even (x / 2 powi e)) * 2 powi e
           in if 2 powi max_binade \<le> \<bar>y\<bar> then (if 0 < x then PosInf else NegInf) else Finite y)"

definition exact :: rounding where
  "exact x = Finite x"

definition pow2 :: "int \<Rightarrow> real" where
  "pow2 k = 2 powi k"

subsection \<open>Float arithmetic\<close>

text \<open>
  The operations on floats, for a given rounding. On finite operands the exact result is
  rounded; the other cases are those of IEEE 754.
\<close>

fun fadd :: "rounding \<Rightarrow> pyfloat \<Rightarrow> pyfloat \<Rightarrow> pyfloat" where
  "fadd r NaN y = NaN"
| "fadd r x NaN = NaN"
| "fadd r (Finite a) (Finite b) = r (a + b)"
| "fadd r (Finite a) PosInf = PosInf"
| "fadd r (Finite a) NegInf = NegInf"
| "fadd r PosInf (Finite b) = PosInf"
| "fadd r NegInf (Finite b) = NegInf"
| "fadd r PosInf PosInf = PosInf"
| "fadd r NegInf NegInf = NegInf"
| "fadd r PosInf NegInf = NaN"
| "fadd r NegInf PosInf = NaN"

definition fsub :: "rounding \<Rightarrow> pyfloat \<Rightarrow> pyfloat \<Rightarrow> pyfloat" where
  "fsub r x y = fadd r x (fneg y)"

fun fmul :: "rounding \<Rightarrow> pyfloat \<Rightarrow> pyfloat \<Rightarrow> pyfloat" where
  "fmul r NaN y = NaN"
| "fmul r x NaN = NaN"
| "fmul r (Finite a) (Finite b) = r (a * b)"
| "fmul r (Finite a) PosInf = (if a = 0 then NaN else if 0 < a then PosInf else NegInf)"
| "fmul r (Finite a) NegInf = (if a = 0 then NaN else if 0 < a then NegInf else PosInf)"
| "fmul r PosInf (Finite b) = (if b = 0 then NaN else if 0 < b then PosInf else NegInf)"
| "fmul r NegInf (Finite b) = (if b = 0 then NaN else if 0 < b then NegInf else PosInf)"
| "fmul r PosInf PosInf = PosInf"
| "fmul r NegInf NegInf = PosInf"
| "fmul r PosInf NegInf = NegInf"
| "fmul r NegInf PosInf = NegInf"

text \<open>
  Division of a numpy float64 scalar never raises: a zero divisor gives \<open>nan\<close> for
  \<open>0 / 0\<close> and an infinity with the sign of the dividend otherwise. Both divisions of
  \<open>cohend\<close> have a float64 dividend, so neither is Python's own float division (which
  raises \<open>ZeroDivisionError\<close>).
\<close>

fun fdiv :: "rounding \<Rightarrow> pyfloat \<Rightarrow> pyfloat \<Rightarrow> pyfloat" where
  "fdiv r NaN y = NaN"
| "fdiv r x NaN = NaN"
| "fdiv r (Finite a) (Finite b) =
     (if b = 0 then (if a = 0 then NaN else if 0 < a then PosInf else NegInf)
      else r (a / b))"
| "fdiv r (Finite a) PosInf = Finite 0"
| "fdiv r (Finite a) NegInf = Finite 0"
| "fdiv r PosInf (Finite b) = (if 0 \<le> b then PosInf else NegInf)"
| "fdiv r NegInf (Finite b) = (if 0 \<le> b then NegInf else PosInf)"
| "fdiv r PosInf PosInf = NaN"
| "fdiv r NegInf NegInf = NaN"
| "fdiv r PosInf NegInf = NaN"
| "fdiv r NegInf PosInf = NaN"

text \<open>
  \<open>math.sqrt\<close> raises \<open>ValueError\<close> (math domain error) on a negative argument and
  returns \<open>nan\<close> on \<open>nan\<close>. A count converts to a float without rounding (the length of a
  list is far below \<open>2^53\<close>).
\<close>

fun math_sqrt :: "rounding \<Rightarrow> pyfloat \<Rightarrow> py_error + pyfloat" where
  "math_sqrt r (Finite a) = (if a < 0 then Inl ValueError else Inr (r (sqrt a)))"
| "math_sqrt r PosInf = Inr PosInf"
| "math_sqrt r NegInf = Inl ValueError"
| "math_sqrt r NaN = Inr NaN"

definition float_of_int :: "int \<Rightarrow> pyfloat" where
  "float_of_int i = Finite (real_of_int i)"

subsection \<open>The numpy reductions the function calls\<close>

text \<open>
  \<open>asarray\<close> is the conversion of the sample to an array of doubles. \<open>np_sum\<close> adds from
  left to right, starting from \<open>0\<close>, rounding after every addition: the loop numpy runs on
  an array of fewer than 8 elements (longer arrays are added in blocks). \<open>numpy.mean\<close> is
  the sum over the count, \<open>nan\<close> on an empty sample. \<open>numpy.var(a, ddof)\<close> is the sum of the
  squared deviations from the mean, over \<open>max(n - ddof, 0)\<close>.
\<close>

definition asarray :: "rounding \<Rightarrow> real list \<Rightarrow> pyfloat list" where
  "asarray r d = map r d"

definition np_sum :: "rounding \<Rightarrow> pyfloat list \<Rightarrow> pyfloat" where
  "np_sum r xs = foldl (fadd r) (Finite 0) xs"

definition np_mean :: "rounding \<Rightarrow> pyfloat list \<Rightarrow> pyfloat" where
  "np_mean r a = fdiv r (np_sum r a) (float_of_int (int (length a)))"

definition np_var :: "rounding \<Rightarrow> pyfloat list \<Rightarrow> int \<Rightarrow> pyfloat" where
  "np_var r a ddof =
     (let arrmean = np_mean r a;
          x = map (\<lambda>v. fsub r v arrmean) a;
          x2 = map (\<lambda>e. fmul r e e) x;
          ret = np_sum r x2;
          rcount = max (int (length a) - ddof) 0
      in fdiv r ret (float_of_int rcount))"

subsection \<open>The function\<close>

text \<open>
  The pooled standard deviation \<open>s\<close>, as the third statement of the body computes it,
  and the function.
\<close>

definition pooled_std :: "rounding \<Rightarrow> real list \<Rightarrow> real list \<Rightarrow> py_error + pyfloat" where
  "pooled_std r d1 d2 =
     (let n1 = int (length d1); n2 = int (length d2);
          s1 = np_var r (asarray r d1) 1; s2 = np_var r (asarray r d2) 1
      in math_sqrt r (fdiv r (fadd r (fmul r (float_of_int (n1 - 1)) s1)
                                     (fmul r (float_of_int (n2 - 1)) s2))
                             (float_of_int (n1 + n2 - 2))))"

definition cohend :: "rounding \<Rightarrow> real list \<Rightarrow> real list \<Rightarrow> py_error + pyfloat" where
  "cohend r d1 d2 =
     (case pooled_std r d1 d2 of
        Inl e \<Rightarrow> Inl e
      | Inr s \<Rightarrow> (let u1 = np_mean r (asarray r d1); u2 = np_mean r (asarray r d2)
                 in Inr (fdiv r (fsub r u1 u2) s)))"

subsection \<open>A call in the interpreter state\<close>

text \<open>
  The module-level state of the notebook is the numpy random generator (\<open>seed(1)\<close>,
  \<open>randn\<close>), the printed output, and the warnings reported so far. numpy reports an
  invalid operation (\<open>0 / 0\<close>, \<open>inf - inf\<close>, \<open>0 * inf\<close>), a division of a non-zero number by
  zero and an overflow by a \<open>RuntimeWarning\<close>, once for each kind in each array operation;
  \<open>var\<close> also warns when the count does not exceed \<open>ddof\<close>, and \<open>mean\<close> on an empty sample.
  Underflow is not reported. The call is the body of \<open>cohend\<close> statement by statement, every
  operation taking the state and returning it.
\<close>

datatype runtime_warning =
  DivideByZero | Overflow | InvalidValue | DegreesOfFreedom | MeanOfEmptySlice

record py_globals =
  rng_state :: nat
  stdout :: "string list"
  warnings :: "runtime_warning list"

definition warn :: "runtime_warning list \<Rightarrow> py_globals \<Rightarrow> py_globals" where
  "warn ws g = g\<lparr>warnings := warnings g @ ws\<rparr>"

fun fadd_flags :: "rounding \<Rightarrow> pyfloat \<Rightarrow> pyfloat \<Rightarrow> runtime_warning list" where
  "fadd_flags r (Finite a) (Finite b) = (if isinf (r (a + b)) then [Overflow] else [])"
| "fadd_flags r PosInf NegInf = [InvalidValue]"
| "fadd_flags r NegInf PosInf = [InvalidValue]"
| "fadd_flags r x y = []"

fun fmul_flags :: "rounding \<Rightarrow> pyfloat \<Rightarrow> pyfloat \<Rightarrow> runtime_warning list" where
  "fmul_flags r (Finite a) (Finite b) = (if isinf (r (a * b)) then [Overflow] else [])"
| "fmul_flags r (Finite a) PosInf = (if a = 0 then [InvalidValue] else [])"
| "fmul_flags r (Finite a) NegInf = (if a = 0 then [InvalidValue] else [])"
| "fmul_flags r PosInf (Finite b) = (if b = 0 then [InvalidValue] else [])"
| "fmul_flags r NegInf (Finite b) = (if b = 0 then [InvalidValue] else [])"
| "fmul_flags r x y = []"

fun fdiv_flags :: "rounding \<Rightarrow> pyfloat \<Rightarrow> pyfloat \<Rightarrow> runtime_warning list" where
  "fdiv_flags r (Finite a) (Finite b) =
     (if b = 0 then (if a = 0 then [InvalidValue] else [DivideByZero])
      else if isinf (r (a / b)) then [Overflow] else [])"
| "fdiv_flags r PosInf PosInf = [InvalidValue]"
| "fdiv_flags r PosInf NegInf = [InvalidValue]"
| "fdiv_flags r NegInf PosInf = [InvalidValue]"
| "fdiv_flags r NegInf NegInf = [InvalidValue]"
| "fdiv_flags r x y = []"

definition once :: "runtime_warning list \<Rightarrow> runtime_warning list" where
  "once fs = filter (\<lambda>w. w \<in> set fs) [DivideByZero, Overflow, InvalidValue]"

fun sum_flags :: "rounding \<Rightarrow> pyfloat \<Rightarrow> pyfloat list \<Rightarrow> runtime_warning list" where
  "sum_flags r acc [] = []"
| "sum_flags r acc (x # xs) = fadd_flags r acc x @ sum_flags r (fadd r acc x) xs"

definition fadd_st where
  "fadd_st r x y g = (fadd r x y, warn (fadd_flags r x y) g)"

definition fsub_st where
  "fsub_st r x y g = (fsub r x y, warn (fadd_flags r x (fneg y)) g)"

definition fmul_st where
  "fmul_st r x y g = (fmul r x y, warn (fmul_flags r x y) g)"

definition fdiv_st where
  "fdiv_st r x y g = (fdiv r x y, warn (fdiv_flags r x y) g)"

definition np_sum_st where
  "np_sum_st r xs g = (np_sum r xs, warn (once (sum_flags r (Finite 0) xs)) g)"

definition np_subtract_st where
  "np_subtract_st r a m g =
     (map (\<lambda>v. fsub r v m) a, warn (once (concat (map (\<lambda>v. fadd_flags r v (fneg m)) a))) g)"

definition np_multiply_st where
  "np_multiply_st r x y g =
     (map (\<lambda>(u, v). fmul r u v) (zip x y),
      warn (once (concat (map (\<lambda>(u, v). fmul_flags r u v) (zip x y)))) g)"

definition np_mean_st ::
    "rounding \<Rightarrow> pyfloat list \<Rightarrow> py_globals \<Rightarrow> pyfloat \<times> py_globals" where
  "np_mean_st r a g =
     (let rcount = int (length a);
          g = (if rcount = 0 then warn [MeanOfEmptySlice] g else g);
          (ret, g) = np_sum_st r a g
      in fdiv_st r ret (float_of_int rcount) g)"

definition np_var_st ::
    "rounding \<Rightarrow> pyfloat list \<Rightarrow> int \<Rightarrow> py_globals \<Rightarrow> pyfloat \<times> py_globals" where
  "np_var_st r a ddof g =
     (let rcount = int (length a);
          g = (if rcount \<le> ddof then warn [DegreesOfFreedom] g else g);
          (arrmean, g) = np_sum_st r a g;
          (arrmean, g) = fdiv_st r arrmean (float_of_int rcount) g;
          (x, g) = np_subtract_st r a arrmean g;
          (x, g) = np_multiply_st r x x g;
          (ret, g) = np_sum_st r x g;
          rcount = max (rcount - ddof) 0
      in fdiv_st r ret (float_of_int rcount) g)"

definition cohend_call ::
    "rounding \<Rightarrow> py_globals \<Rightarrow> real list \<Rightarrow> real list \<Rightarrow> (py_error + pyfloat) \<times> py_globals" where
  "cohend_call r g d1 d2 =
     (let n1 = int (length d1); n2 = int (length d2);
          (s1, g) = np_var_st r (asarray r d1) 1 g;
          (s2, g) = np_var_st r (asarray r d2) 1 g;
          (p1, g) = fmul_st r (float_of_int (n1 - 1)) s1 g;
          (p2, g) = fmul_st r (float_of_int (n2 - 1)) s2 g;
          (p, g) = fadd_st r p1 p2 g;
          (q, g) = fdiv_st r p (float_of_int (n1 + n2 - 2)) g
      in case math_sqrt r q of
           Inl e \<Rightarrow> (Inl e, g)
         | Inr s \<Rightarrow>
             (let (u1, g) = np_mean_st r (asarray r d1) g;
                  (u2, g) = np_mean_st r (asarray r d2) g;
                  (u, g) = fsub_st r u1 u2 g;
                  (d, g) = fdiv_st r u s g
              in (Inr d, g)))"

subsection \<open>The statistics in the words of the specification\<close>

text \<open>
  The arithmetic mean, the Bessel-corrected sample variance (divisor \<open>n - 1\<close>) and the
  pooled variance and standard deviation, over the reals.
\<close>

definition spec_mean :: "real list \<Rightarrow> real" where
  "spec_mean d = sum_list d / real (length d)"

definition spec_var :: "real list \<Rightarrow> real" where
  "spec_var d = (\<Sum>x\<leftarrow>d. (x - spec_mean d)\<^sup>2) / (real (length d) - 1)"

definition spec_pooled_var :: "real list \<Rightarrow> real list \<Rightarrow> real" where
  "spec_pooled_var d1 d2 =
     ((real (length d1) - 1) * spec_var d1 + (real (length d2) - 1) * spec_var d2)
       / (real (length d1) + real (length d2) - 2)"

definition spec_pooled_sd :: "real list \<Rightarrow> real list \<Rightarrow> real" where
  "spec_pooled_sd d1 d2 = sqrt (spec_pooled_var d1 d2)"

subsection \<open>What the proofs use of a rounding\<close>

text \<open>
  Zero is exact, no rounding produces \<open>nan\<close>, rounding is symmetric about zero, a
  rounded value rounds to itself, and a number that is not negative does not round to a
  negative one. Both \<open>binary64\<close> and \<open>exact\<close> have these properties.
\<close>

definition ieee :: "rounding \<Rightarrow> bool" where
  "ieee r \<longleftrightarrow>
     r 0 = Finite 0 \<and> (\<forall>x. r x \<noteq> NaN) \<and> (\<forall>x. r (- x) = fneg (r x))
     \<and> (\<forall>x y. r x = Finite y \<longrightarrow> r y = Finite y)
     \<and> (\<forall>x. 0 \<le> x \<longrightarrow> r x \<noteq> NegInf \<and> (\<forall>y. r x = Finite y \<longrightarrow> 0 \<le> y))"

section \<open>Rounding to nearest, ties to even\<close>

lemma round_even_of_int [simp]: "round_even (of_int n) = n"
  by (simp add: round_even_def)

lemma floor_bounds: "real_of_int \<lfloor>q\<rfloor> \<le> q" "q < real_of_int \<lfloor>q\<rfloor> + 1"
  by linarith+

lemma round_even_bounds:
  "real_of_int (round_even q) \<le> q + 1 / 2" "q - 1 / 2 \<le> real_of_int (round_even q)"
  unfolding round_even_def Let_def
  by (auto split: if_splits) linarith+

lemma round_even_neg: "round_even (- q) = - round_even q"
proof (cases "q = of_int \<lfloor>q\<rfloor>")
  case True
  then have "round_even q = \<lfloor>q\<rfloor>" "round_even (- q) = - \<lfloor>q\<rfloor>"
    by (metis round_even_of_int, metis round_even_of_int of_int_minus)
  then show ?thesis by simp
next
  case False
  have lt: "real_of_int \<lfloor>q\<rfloor> < q"
    by (metis False of_int_floor_le order_less_le)
  have f: "\<lfloor>- q\<rfloor> = - \<lfloor>q\<rfloor> - 1"
  proof (rule floor_unique)
    show "real_of_int (- \<lfloor>q\<rfloor> - 1) \<le> - q" by simp linarith
    show "- q < real_of_int (- \<lfloor>q\<rfloor> - 1) + 1" using lt by simp
  qed
  define d where "d = q - of_int \<lfloor>q\<rfloor>"
  have d': "- q - of_int (- \<lfloor>q\<rfloor> - 1) = 1 - d" by (simp add: d_def)
  have ev: "even (- \<lfloor>q\<rfloor> - 1) \<longleftrightarrow> odd \<lfloor>q\<rfloor>" by simp
  show ?thesis
    unfolding round_even_def Let_def f d' ev d_def [symmetric]
    by (cases "d < 1 / 2"; cases "1 / 2 < d") (simp_all add: field_simps)
qed

lemma powr_powi: "0 < b \<Longrightarrow> b powr real_of_int k = b powi k"
  by (rule powr_real_of_int') simp_all

lemma binade:
  assumes "x \<noteq> 0"
  shows "2 powi \<lfloor>log 2 \<bar>x\<bar>\<rfloor> \<le> \<bar>x\<bar>" "\<bar>x\<bar> < 2 powi (\<lfloor>log 2 \<bar>x\<bar>\<rfloor> + 1)"
proof -
  from assms have p: "0 < \<bar>x\<bar>" by simp
  have "2 powr real_of_int \<lfloor>log 2 \<bar>x\<bar>\<rfloor> \<le> \<bar>x\<bar>
        \<and> \<bar>x\<bar> < 2 powr (real_of_int \<lfloor>log 2 \<bar>x\<bar>\<rfloor> + 1)"
    using floor_log_eq_powr_iff [OF p, of 2 "\<lfloor>log 2 \<bar>x\<bar>\<rfloor>"] by simp
  then have "2 powr real_of_int \<lfloor>log 2 \<bar>x\<bar>\<rfloor> \<le> \<bar>x\<bar>"
    and "\<bar>x\<bar> < 2 powr real_of_int (\<lfloor>log 2 \<bar>x\<bar>\<rfloor> + 1)"
    by simp_all
  then show "2 powi \<lfloor>log 2 \<bar>x\<bar>\<rfloor> \<le> \<bar>x\<bar>" "\<bar>x\<bar> < 2 powi (\<lfloor>log 2 \<bar>x\<bar>\<rfloor> + 1)"
    by (simp_all only: powr_powi [of 2, simplified])
qed

lemma binade_unique:
  assumes "2 powi k \<le> \<bar>x\<bar>" "\<bar>x\<bar> < 2 powi (k + 1)"
  shows "\<lfloor>log 2 \<bar>x\<bar>\<rfloor> = k"
proof -
  have p: "0 < \<bar>x\<bar>"
    using assms(1) zero_less_power_int [of "2::real" k] by linarith
  have "2 powr real_of_int k \<le> \<bar>x\<bar> \<and> \<bar>x\<bar> < 2 powr (real_of_int k + 1)"
    using assms powr_powi [of 2 k] powr_powi [of 2 "k + 1"] by simp
  then show ?thesis
    using floor_log_eq_powr_iff [OF p, of 2 k] by simp
qed

lemma quantum_neg [simp]: "quantum (- x) = quantum x"
  by (simp add: quantum_def)

lemma binary64_zero [simp]: "binary64 0 = Finite 0"
  by (simp add: binary64_def)

lemma binary64_not_NaN [simp]: "binary64 x \<noteq> NaN"
  by (simp add: binary64_def Let_def)

lemma binary64_neg: "binary64 (- x) = fneg (binary64 x)"
  by (cases "x = 0") (auto simp add: binary64_def Let_def round_even_neg)

lemma round_even_nonneg: "0 \<le> q \<Longrightarrow> 0 \<le> round_even q"
  using round_even_bounds(2) [of q] by linarith

lemma binary64_nonneg:
  assumes "0 \<le> x"
  shows "binary64 x \<noteq> NegInf" "binary64 x = Finite y \<Longrightarrow> 0 \<le> y"
proof -
  show "binary64 x \<noteq> NegInf"
    using assms by (auto simp add: binary64_def Let_def)
  assume h: "binary64 x = Finite y"
  show "0 \<le> y"
  proof (cases "x = 0")
    case True
    with h show ?thesis by simp
  next
    case False
    have "0 \<le> x / 2 powi quantum x" using assms by simp
    then have "0 \<le> round_even (x / 2 powi quantum x)" by (rule round_even_nonneg)
    then have "0 \<le> real_of_int (round_even (x / 2 powi quantum x)) * 2 powi quantum x"
      by simp
    with h False show ?thesis
      by (auto simp add: binary64_def Let_def split: if_splits)
  qed
qed

lemma quantum_ge: "- 1074 \<le> quantum x"
  by (simp add: quantum_def)

lemma two_powi_less_cancel:
  assumes "(2::real) powi a < 2 powi b"
  shows "a < b"
proof (rule ccontr)
  assume "\<not> a < b"
  then have "b \<le> a" by simp
  then have "(2::real) powi b \<le> 2 powi a" by (rule power_int_increasing) simp
  with assms show False by simp
qed

lemma two_powi_mono: "a \<le> b \<Longrightarrow> (2::real) powi a \<le> 2 powi b"
  by (rule power_int_increasing) simp_all

lemma two_powi_split: "(2::real) powi (a + b) = 2 powi a * 2 powi b"
  by (simp add: power_int_add)

lemma two_powi_nat: "0 \<le> a \<Longrightarrow> (2::real) powi a = of_int (2 ^ nat a)"
  by (simp add: power_int_def)

lemma binary64_exact_below:
  assumes "\<bar>m\<bar> < 2 ^ 53" "- 1074 \<le> e"
    and "\<bar>real_of_int m * 2 powi e\<bar> < 2 powi max_binade"
  shows "binary64 (of_int m * 2 powi e) = Finite (of_int m * 2 powi e)"
proof (cases "m = 0")
  case True
  then show ?thesis by simp
next
  case False
  define x where "x = real_of_int m * 2 powi e"
  have x0: "x \<noteq> 0" using False by (simp add: x_def)
  have ax: "\<bar>x\<bar> = real_of_int \<bar>m\<bar> * 2 powi e"
    by (simp add: x_def abs_mult)
  have "real_of_int \<bar>m\<bar> < 2 ^ 53"
    using assms(1) by (metis of_int_less_numeral_power_cancel_iff)
  then have "\<bar>x\<bar> < 2 ^ 53 * 2 powi e"
    unfolding ax by (simp add: mult_strict_right_mono)
  also have "\<dots> = 2 powi (e + 53)"
    by (simp add: power_int_add)
  finally have ub: "\<bar>x\<bar> < 2 powi (e + 53)" .
  have "2 powi \<lfloor>log 2 \<bar>x\<bar>\<rfloor> < (2::real) powi (e + 53)"
    using binade(1) [OF x0] ub by linarith
  then have "\<lfloor>log 2 \<bar>x\<bar>\<rfloor> < e + 53" by (rule two_powi_less_cancel)
  with assms(2) have k: "quantum x \<le> e" by (simp add: quantum_def)
  define k where "k = quantum x"
  define j where "j = e - k"
  have j: "0 \<le> j" "j + k = e" using k by (simp_all add: j_def k_def)
  have "(2::real) powi (j + k) = 2 powi j * 2 powi k"
    by (rule power_int_add) simp
  then have pe: "(2::real) powi e = 2 powi j * 2 powi k"
    by (simp only: j(2))
  have pj: "(2::real) powi j = real_of_int (2 ^ nat j)"
    using j(1) by (simp add: power_int_def)
  have xk: "x = real_of_int (m * 2 ^ nat j) * 2 powi k"
    by (simp add: x_def pe pj)
  have "x / 2 powi k = real_of_int (m * 2 ^ nat j)"
    by (simp add: xk)
  then have y: "real_of_int (round_even (x / 2 powi quantum x)) * 2 powi quantum x = x"
    unfolding k_def [symmetric] by (simp only: round_even_of_int xk [symmetric])
  from assms(3) have "\<not> 2 powi max_binade \<le> \<bar>x\<bar>" by (simp add: x_def)
  with x0 y show ?thesis
    unfolding x_def [symmetric] by (simp add: binary64_def Let_def)
qed

lemma binary64_exact:
  assumes "\<bar>m\<bar> < 2 ^ 53" "- 1074 \<le> e" "e \<le> 971"
  shows "binary64 (of_int m * 2 powi e) = Finite (of_int m * 2 powi e)"
proof (rule binary64_exact_below [OF assms(1,2)])
  have "real_of_int \<bar>m\<bar> < 2 ^ 53"
    using assms(1) by (metis of_int_less_numeral_power_cancel_iff)
  then have "\<bar>real_of_int m * 2 powi e\<bar> < 2 ^ 53 * 2 powi e"
    by (simp add: abs_mult mult_strict_right_mono)
  also have "\<dots> = 2 powi (e + 53)"
    by (simp add: power_int_add)
  also have "\<dots> \<le> 2 powi max_binade"
    using assms(3) by (intro two_powi_mono) (simp add: max_binade_def)
  finally show "\<bar>real_of_int m * 2 powi e\<bar> < 2 powi max_binade" .
qed

lemma binary64_of_int: "\<bar>m\<bar> < 2 ^ 53 \<Longrightarrow> binary64 (of_int m) = Finite (of_int m)"
  using binary64_exact [of m 0] by simp

lemma quotient_bound:
  assumes "x \<noteq> 0"
  shows "\<bar>x / 2 powi quantum x\<bar> < 2 ^ 53"
proof -
  define E where "E = \<lfloor>log 2 \<bar>x\<bar>\<rfloor>"
  have k: "E + 1 \<le> quantum x + 53" by (simp add: quantum_def E_def)
  have "\<bar>x\<bar> < 2 powi (E + 1)" unfolding E_def by (rule binade(2) [OF assms])
  also have "\<dots> \<le> 2 powi (quantum x + 53)" by (rule two_powi_mono [OF k])
  also have "\<dots> = 2 powi quantum x * 2 ^ 53" by (simp add: power_int_add)
  finally have "\<bar>x\<bar> / 2 powi quantum x < 2 ^ 53"
    by (simp add: pos_divide_less_eq mult.commute)
  then show ?thesis by (simp add: abs_divide)
qed

lemma round_even_abs_le:
  assumes "\<bar>q\<bar> < real_of_int n"
  shows "\<bar>round_even q\<bar> \<le> n"
  using round_even_bounds [of q] assms by linarith

lemma binary64_idem:
  assumes "binary64 x = Finite y"
  shows "binary64 y = Finite y"
proof (cases "x = 0")
  case True
  with assms show ?thesis by simp
next
  case False
  define k where "k = quantum x"
  define r where "r = round_even (x / 2 powi k)"
  from assms False have y: "y = real_of_int r * 2 powi k"
    and fin: "\<bar>real_of_int r * 2 powi k\<bar> < 2 powi max_binade"
    by (auto simp add: binary64_def Let_def k_def r_def split: if_splits)
  have "\<bar>x / 2 powi k\<bar> < real_of_int (2 ^ 53)"
    using quotient_bound [OF False] by (simp add: k_def)
  then have r: "\<bar>r\<bar> \<le> 2 ^ 53" unfolding r_def by (rule round_even_abs_le)
  have kge: "- 1074 \<le> k" unfolding k_def by (rule quantum_ge)
  show ?thesis
  proof (cases "\<bar>r\<bar> < 2 ^ 53")
    case True
    show ?thesis unfolding y by (rule binary64_exact_below [OF True kge fin])
  next
    case False
    with r have "\<bar>r\<bar> = 2 ^ 53" by simp
    then have "r = 2 ^ 53 \<or> r = - (2 ^ 53)" by linarith
    then have r2: "r = 2 * (r div 2)" "\<bar>r div 2\<bar> < 2 ^ 53" by auto
    have "real_of_int r * 2 powi k = real_of_int (r div 2) * (2 * 2 powi k)"
      by (subst r2(1)) simp
    also have "\<dots> = real_of_int (r div 2) * 2 powi (k + 1)"
      by (simp add: power_int_add)
    finally have y': "real_of_int r * 2 powi k = real_of_int (r div 2) * 2 powi (k + 1)" .
    from kge have kge': "- 1074 \<le> k + 1" by simp
    show ?thesis
      unfolding y y'
      by (rule binary64_exact_below [OF r2(2) kge']) (use fin y' in simp)
  qed
qed

lemma round_even_small: 
  assumes "\<bar>q\<bar> \<le> 1 / 2"
  shows "round_even q = 0"
proof (cases "0 \<le> q")
  case True
  with assms have "\<lfloor>q\<rfloor> = 0" by (intro floor_unique) simp_all
  with assms True show ?thesis by (simp add: round_even_def)
next
  case False
  with assms have "\<lfloor>q\<rfloor> = - 1" by (intro floor_unique) simp_all
  with assms False show ?thesis by (simp add: round_even_def Let_def)
qed

lemma binary64_underflow:
  assumes "\<bar>x\<bar> \<le> 2 powi (- 1075)"
  shows "binary64 x = Finite 0"
proof (cases "x = 0")
  case True
  then show ?thesis by simp
next
  case False
  have "(2::real) powi (- 1075) < 2 powi (- 1074)"
    by (rule power_int_strict_increasing) simp_all
  with assms binade(1) [OF False] have "2 powi \<lfloor>log 2 \<bar>x\<bar>\<rfloor> < (2::real) powi (- 1074)" by linarith
  then have "\<lfloor>log 2 \<bar>x\<bar>\<rfloor> < - 1074" by (rule two_powi_less_cancel)
  then have k: "quantum x = - 1074" by (simp add: quantum_def)
  have "(2::real) powi (- 1075 + 1074) = 2 powi (- 1075) * 2 powi 1074"
    by (rule power_int_add) simp
  then have h: "(2::real) powi (- 1075) * 2 powi 1074 = 1 / 2" by simp
  have "\<bar>x / 2 powi (- 1074)\<bar> = \<bar>x\<bar> * 2 powi 1074"
    by (simp add: abs_divide power_int_minus field_simps)
  also have "\<dots> \<le> 2 powi (- 1075) * 2 powi 1074"
    using assms by (intro mult_right_mono) simp_all
  finally have "\<bar>x / 2 powi (- 1074)\<bar> \<le> 1 / 2" by (simp only: h)
  then have "round_even (x / 2 powi (- 1074)) = 0" by (rule round_even_small)
  then have "round_even (x / 2 powi quantum x) = 0" by (simp only: k)
  moreover have "\<not> (2::real) powi max_binade \<le> 0" by (simp add: not_le)
  ultimately show ?thesis using False by (simp add: binary64_def Let_def)
qed

lemma round_even_abs_ge:
  assumes "real_of_int n \<le> \<bar>q\<bar>"
  shows "n \<le> \<bar>round_even q\<bar>"
  using round_even_bounds [of q] assms by linarith

lemma rounded_magnitude:
  assumes "x \<noteq> 0" "- 1022 \<le> \<lfloor>log 2 \<bar>x\<bar>\<rfloor>"
  defines "E \<equiv> \<lfloor>log 2 \<bar>x\<bar>\<rfloor>"
  defines "y \<equiv> real_of_int (round_even (x / 2 powi quantum x)) * 2 powi quantum x"
  shows "2 powi E \<le> \<bar>y\<bar>" "\<bar>y\<bar> \<le> 2 powi (E + 1)"
proof -
  have k: "quantum x = E - 52" using assms(2) by (simp add: quantum_def E_def)
  have pe: "(2::real) powi E = 2 ^ 52 * 2 powi (E - 52)"
    using power_int_add [of "2::real" 52 "E - 52"] by simp
  have pe1: "(2::real) powi (E + 1) = 2 ^ 53 * 2 powi (E - 52)"
    using power_int_add [of "2::real" 53 "E - 52"] by (simp add: algebra_simps)
  define q where "q = x / 2 powi (E - 52)"
  have "2 ^ 52 * 2 powi (E - 52) \<le> \<bar>x\<bar>"
    using binade(1) [OF assms(1)] unfolding E_def [symmetric] pe .
  then have "2 ^ 52 \<le> \<bar>q\<bar>"
    by (simp add: q_def abs_divide pos_le_divide_eq)
  then have "real_of_int (2 ^ 52) \<le> \<bar>q\<bar>" by simp
  then have lo: "2 ^ 52 \<le> \<bar>round_even q\<bar>" by (rule round_even_abs_ge)
  have "\<bar>q\<bar> < real_of_int (2 ^ 53)"
    using quotient_bound [OF assms(1)] by (simp add: q_def k)
  then have hi: "\<bar>round_even q\<bar> \<le> 2 ^ 53" by (rule round_even_abs_le)
  have ay: "\<bar>y\<bar> = real_of_int \<bar>round_even q\<bar> * 2 powi (E - 52)"
    by (simp add: y_def k q_def abs_mult)
  from lo have "(2::real) ^ 52 \<le> real_of_int \<bar>round_even q\<bar>"
    by (metis of_int_le_iff of_int_numeral of_int_power)
  then show "2 powi E \<le> \<bar>y\<bar>"
    unfolding ay pe by (intro mult_right_mono) simp_all
  from hi have "real_of_int \<bar>round_even q\<bar> \<le> (2::real) ^ 53"
    by (metis of_int_le_iff of_int_numeral of_int_power)
  then show "\<bar>y\<bar> \<le> 2 powi (E + 1)"
    unfolding ay pe1 by (intro mult_right_mono) simp_all
qed

lemma binary64_overflow:
  assumes "2 powi max_binade \<le> \<bar>x\<bar>"
  shows "binary64 x = (if 0 < x then PosInf else NegInf)"
proof -
  have "0 < (2::real) powi max_binade" by simp
  with assms have "0 < \<bar>x\<bar>" by linarith
  then have x0: "x \<noteq> 0" by simp
  have "2 powi max_binade < (2::real) powi (\<lfloor>log 2 \<bar>x\<bar>\<rfloor> + 1)"
    using assms binade(2) [OF x0] by linarith
  then have "max_binade < \<lfloor>log 2 \<bar>x\<bar>\<rfloor> + 1" by (rule two_powi_less_cancel)
  then have E: "max_binade \<le> \<lfloor>log 2 \<bar>x\<bar>\<rfloor>" by simp
  then have "- 1022 \<le> \<lfloor>log 2 \<bar>x\<bar>\<rfloor>" by (simp add: max_binade_def)
  from rounded_magnitude(1) [OF x0 this] two_powi_mono [OF E]
  have "2 powi max_binade
        \<le> \<bar>real_of_int (round_even (x / 2 powi quantum x)) * 2 powi quantum x\<bar>"
    by linarith
  with x0 show ?thesis by (simp add: binary64_def Let_def)
qed

lemma two_powi_le_cancel:
  assumes "(2::real) powi a \<le> 2 powi b"
  shows "a \<le> b"
proof (rule ccontr)
  assume "\<not> a \<le> b"
  then have "b < a" by simp
  then have "(2::real) powi b < 2 powi a" by (rule power_int_strict_increasing) simp
  with assms show False by simp
qed

lemma binary64_range:
  assumes "2 powi a \<le> x" "x \<le> 2 powi b" "- 1022 \<le> a" "b < max_binade"
  shows "\<exists>y. binary64 x = Finite y \<and> 2 powi a \<le> y \<and> y \<le> 2 powi b"
proof (cases "x = 2 powi b")
  case True
  have "\<bar>real_of_int 1 * 2 powi b\<bar> < (2::real) powi max_binade"
    using power_int_strict_increasing [OF assms(4), of "2::real"] by simp
  moreover have "a \<le> b"
    using assms(1) True by (intro two_powi_le_cancel) simp
  ultimately have "binary64 (real_of_int 1 * 2 powi b) = Finite (real_of_int 1 * 2 powi b)"
    using assms(3) by (intro binary64_exact_below) simp_all
  with True assms(1) show ?thesis by simp
next
  case False
  have xp: "0 < x" using assms(1) zero_less_power_int [of "2::real" a] by linarith
  then have x0: "x \<noteq> 0" and ax: "\<bar>x\<bar> = x" by simp_all
  define E where "E = \<lfloor>log 2 \<bar>x\<bar>\<rfloor>"
  define y where "y = real_of_int (round_even (x / 2 powi quantum x)) * 2 powi quantum x"
  have "2 powi a < (2::real) powi (E + 1)"
    using assms(1) binade(2) [OF x0] unfolding E_def ax by linarith
  then have aE: "a \<le> E" using two_powi_less_cancel by fastforce
  have E: "- 1022 \<le> \<lfloor>log 2 \<bar>x\<bar>\<rfloor>"
    using aE assms(3) unfolding E_def by linarith
  note m = rounded_magnitude [OF x0 E, folded E_def y_def]
  have "0 \<le> x / 2 powi quantum x" using xp by simp
  then have "0 \<le> y" unfolding y_def using round_even_nonneg by simp
  then have ay: "\<bar>y\<bar> = y" by simp
  have lo: "2 powi a \<le> y" using m(1) two_powi_mono [OF aE] unfolding ay by linarith
  from False assms(2) have "x < 2 powi b" by simp
  then have "2 powi E < (2::real) powi b"
    using binade(1) [OF x0] unfolding E_def ax by linarith
  then have "E + 1 \<le> b" using two_powi_less_cancel by fastforce
  from two_powi_mono [OF this] m(2) have hi: "y \<le> 2 powi b" unfolding ay by linarith
  have "y < 2 powi max_binade"
    using hi power_int_strict_increasing [OF assms(4), of "2::real"] by simp
  then show ?thesis
    using x0 lo hi by (simp add: binary64_def Let_def y_def [symmetric] ay)
qed

section \<open>The two arithmetics\<close>

lemma ieee_binary64: "ieee binary64"
  unfolding ieee_def
  using binary64_neg binary64_idem binary64_nonneg by auto

lemma ieee_exact: "ieee exact"
  by (simp add: ieee_def exact_def)

lemma ieeeD:
  assumes "ieee r"
  shows "r 0 = Finite 0" "r x \<noteq> NaN" "r (- x) = fneg (r x)"
    "r x = Finite y \<Longrightarrow> r y = Finite y"
    "0 \<le> x \<Longrightarrow> r x \<noteq> NegInf" "0 \<le> x \<Longrightarrow> r x = Finite y \<Longrightarrow> 0 \<le> y"
  using assms unfolding ieee_def by blast+

section \<open>Samples that are too small\<close>

lemma fadd_NaN_right [simp]: "fadd r x NaN = NaN" by (cases x) simp_all
lemma fmul_NaN_right [simp]: "fmul r x NaN = NaN" by (cases x) simp_all
lemma fdiv_NaN_right [simp]: "fdiv r x NaN = NaN" by (cases x) simp_all
lemma fsub_NaN [simp]: "fsub r x NaN = NaN" "fsub r NaN y = NaN"
  by (simp_all add: fsub_def)

lemma np_mean_Nil: "np_mean r [] = NaN"
  by (simp add: np_mean_def np_sum_def float_of_int_def)

lemma np_var_Nil: "np_var r [] 1 = NaN"
  by (simp add: np_var_def np_mean_Nil np_sum_def float_of_int_def Let_def)

lemma np_var_single:
  assumes "ieee r"
  shows "np_var r [r v] 1 = NaN"
proof (cases "r v")
  case (Finite y)
  then have y: "r y = Finite y" by (rule ieeeD(4) [OF assms])
  have m: "np_mean r [Finite y] = Finite y"
    by (simp add: np_mean_def np_sum_def float_of_int_def y)
  show ?thesis
    by (simp add: Finite np_var_def m fsub_def np_sum_def float_of_int_def ieeeD(1) [OF assms])
next
  case PosInf
  then show ?thesis
    by (simp add: np_var_def np_mean_def np_sum_def float_of_int_def fsub_def)
next
  case NegInf
  then show ?thesis
    by (simp add: np_var_def np_mean_def np_sum_def float_of_int_def fsub_def)
next
  case NaN
  with ieeeD(2) [OF assms, of v] show ?thesis by simp
qed

lemma np_var_small:
  assumes "ieee r" "length d < 2"
  shows "np_var r (asarray r d) 1 = NaN"
proof (cases d)
  case Nil
  then show ?thesis by (simp add: asarray_def np_var_Nil)
next
  case (Cons v vs)
  with assms(2) have "d = [v]" by simp
  then show ?thesis by (simp add: asarray_def np_var_single [OF assms(1)])
qed

lemma pooled_std_small:
  assumes "ieee r" "length d1 < 2 \<or> length d2 < 2"
  shows "pooled_std r d1 d2 = Inr NaN"
proof -
  have "np_var r (asarray r d1) 1 = NaN \<or> np_var r (asarray r d2) 1 = NaN"
    using assms np_var_small by blast
  then show ?thesis
    by (auto simp add: pooled_std_def Let_def)
qed

lemma cohend_small:
  assumes "ieee r" "length d1 < 2 \<or> length d2 < 2"
  shows "cohend r d1 d2 = Inr NaN"
  by (simp add: cohend_def pooled_std_small [OF assms])

section \<open>Evaluation on concrete samples\<close>

lemma binary64_numeral [simp]:
  "numeral n < (2 ^ 53 :: int) \<Longrightarrow> binary64 (numeral n) = Finite (numeral n)"
  using binary64_of_int [of "numeral n"] by simp

lemma binary64_neg_numeral [simp]:
  "numeral n < (2 ^ 53 :: int) \<Longrightarrow> binary64 (- numeral n) = Finite (- numeral n)"
  using binary64_of_int [of "- numeral n"] by simp

lemma binary64_one [simp]: "binary64 1 = Finite 1"
  using binary64_of_int [of 1] by simp

lemma binary64_neg_one [simp]: "binary64 (- 1) = Finite (- 1)"
  using binary64_of_int [of "- 1"] by simp

lemmas cohend_eval =
  cohend_def pooled_std_def np_var_def np_mean_def np_sum_def asarray_def float_of_int_def
  fsub_def

section \<open>Division by zero and swapped arguments\<close>

lemma fdiv_zero_nonfinite: "\<not> isfinite (fdiv r x (Finite 0))"
  by (cases x) simp_all

lemma fadd_commute: "fadd r x y = fadd r y x"
  by (cases x; cases y) (simp_all add: add.commute)

lemma fneg_fneg [simp]: "fneg (fneg x) = x"
  by (cases x) simp_all

lemma fsub_swap:
  assumes "ieee r"
  shows "fsub r x y = fneg (fsub r y x)"
proof (cases x; cases y)
  fix a b assume "x = Finite a" "y = Finite b"
  moreover have "r (a + - b) = fneg (r (b + - a))"
    using ieeeD(3) [OF assms, of "b + - a"] by simp
  ultimately show ?thesis by (simp add: fsub_def)
qed (simp_all add: fsub_def)

lemma fdiv_fneg:
  assumes "ieee r"
  shows "fdiv r (fneg x) s = fneg (fdiv r x s)"
proof (cases x; cases s)
  fix a b assume "x = Finite a" "s = Finite b"
  moreover have "r (- a / b) = fneg (r (a / b))"
    using ieeeD(3) [OF assms, of "a / b"] by simp
  ultimately show ?thesis by simp
qed simp_all

lemma pooled_std_commute: "pooled_std r d1 d2 = pooled_std r d2 d1"
  by (simp add: pooled_std_def Let_def add.commute fadd_commute [of r "fmul r _ (np_var r (asarray r d1) 1)"])

lemma cohend_swap:
  assumes "ieee r"
  shows "cohend r A B = map_sum id fneg (cohend r B A)"
proof (cases "pooled_std r A B")
  case (Inl e)
  then show ?thesis by (simp add: cohend_def pooled_std_commute [of r B A])
next
  case (Inr s)
  then show ?thesis
    using fsub_swap [OF assms, of "np_mean r (asarray r A)" "np_mean r (asarray r B)"]
    by (simp add: cohend_def pooled_std_commute [of r B A] fdiv_fneg [OF assms])
qed

section \<open>A finite result needs finite operands\<close>

lemma fadd_nonfinite_left: "\<not> isfinite x \<Longrightarrow> \<not> isfinite (fadd r x y)"
  by (cases x; cases y) simp_all

lemma fadd_nonfinite_right: "\<not> isfinite y \<Longrightarrow> \<not> isfinite (fadd r x y)"
  by (cases x; cases y) simp_all

lemma fneg_nonfinite: "\<not> isfinite y \<Longrightarrow> \<not> isfinite (fneg y)"
  by (cases y) simp_all

lemma fsub_nonfinite_right: "\<not> isfinite y \<Longrightarrow> \<not> isfinite (fsub r x y)"
  by (simp add: fsub_def fadd_nonfinite_right fneg_nonfinite)

lemma fmul_nonfinite_self: "\<not> isfinite x \<Longrightarrow> \<not> isfinite (fmul r x x)"
  by (cases x) simp_all

lemma fmul_nonfinite_right: "\<not> isfinite y \<Longrightarrow> \<not> isfinite (fmul r x y)"
  by (cases x; cases y) simp_all

lemma fdiv_nonfinite_left: "\<not> isfinite x \<Longrightarrow> \<not> isfinite (fdiv r x (Finite b))"
  by (cases x) simp_all

lemma foldl_fadd_nonfinite: "\<not> isfinite acc \<Longrightarrow> \<not> isfinite (foldl (fadd r) acc xs)"
  by (induction xs arbitrary: acc) (simp_all add: fadd_nonfinite_left)

lemma np_sum_nonfinite:
  assumes "xs \<noteq> []" "\<forall>x\<in>set xs. \<not> isfinite x"
  shows "\<not> isfinite (np_sum r xs)"
proof -
  from assms obtain x ys where xs: "xs = x # ys" and x: "\<not> isfinite x"
    by (cases xs) auto
  show ?thesis
    unfolding np_sum_def xs
    by (simp add: foldl_fadd_nonfinite fadd_nonfinite_right x)
qed

lemma np_var_nonfinite:
  assumes "\<not> isfinite (np_mean r a)"
  shows "\<not> isfinite (np_var r a 1)"
proof (cases "a = []")
  case True
  then show ?thesis by (simp add: np_var_Nil)
next
  case False
  have "\<not> isfinite (np_sum r (map (\<lambda>e. fmul r e e) (map (\<lambda>v. fsub r v (np_mean r a)) a)))"
    by (rule np_sum_nonfinite)
      (use False in \<open>auto simp add: fmul_nonfinite_self fsub_nonfinite_right assms\<close>)
  then show ?thesis
    by (simp add: np_var_def Let_def float_of_int_def fdiv_nonfinite_left)
qed

lemma math_sqrt_Finite:
  "math_sqrt r x = Inr (Finite s) \<Longrightarrow> isfinite x"
  by (cases x) (simp_all split: if_splits)

lemma pooled_std_finite_vars:
  assumes "pooled_std r d1 d2 = Inr (Finite s)"
  shows "isfinite (np_var r (asarray r d1) 1)" "isfinite (np_var r (asarray r d2) 1)"
proof -
  let ?n = "fadd r (fmul r (float_of_int (int (length d1) - 1)) (np_var r (asarray r d1) 1))
                   (fmul r (float_of_int (int (length d2) - 1)) (np_var r (asarray r d2) 1))"
  from assms have "isfinite (fdiv r ?n (float_of_int (int (length d1) + int (length d2) - 2)))"
    by (auto simp add: pooled_std_def Let_def dest: math_sqrt_Finite)
  then have n: "isfinite ?n"
    using fdiv_nonfinite_left [of ?n r] by (auto simp add: float_of_int_def)
  show "isfinite (np_var r (asarray r d1) 1)"
    using n fadd_nonfinite_left fmul_nonfinite_right by blast
  show "isfinite (np_var r (asarray r d2) 1)"
    using n fadd_nonfinite_right fmul_nonfinite_right by blast
qed

lemma pooled_std_finite_means:
  assumes "pooled_std r d1 d2 = Inr (Finite s)"
  shows "isfinite (np_mean r (asarray r d1))" "isfinite (np_mean r (asarray r d2))"
  using pooled_std_finite_vars [OF assms] np_var_nonfinite by blast+

lemma isfinite_iff: "isfinite x \<longleftrightarrow> (\<exists>a. x = Finite a)"
  by (cases x) simp_all

lemma cohend_self_positive:
  assumes "ieee r" "pooled_std r A A = Inr (Finite s)" "s \<noteq> 0"
  shows "cohend r A A = Inr (Finite 0)"
proof -
  from pooled_std_finite_means(1) [OF assms(2)] obtain m
    where m: "np_mean r (asarray r A) = Finite m"
    by (auto simp add: isfinite_iff)
  show ?thesis
    using assms(3) by (simp add: cohend_def assms(2) m fsub_def ieeeD(1) [OF assms(1)])
qed

lemma cohend_self_zero_var:
  assumes "ieee r" "np_var r (asarray r A) 1 = Finite 0"
  shows "cohend r A A = Inr NaN"
proof -
  have "\<not> length A < 2"
    using assms np_var_small [of r A] by auto
  then have l: "real_of_int (int (length A) + int (length A) - 2) \<noteq> 0" by simp
  have s: "pooled_std r A A = Inr (Finite 0)"
    using l by (simp add: pooled_std_def Let_def assms(2) float_of_int_def ieeeD(1) [OF assms(1)])
  define u where "u = np_mean r (asarray r A)"
  have "fdiv r (fsub r u u) (Finite 0) = NaN"
    by (cases u) (simp_all add: fsub_def ieeeD(1) [OF assms(1)])
  then show ?thesis
    by (simp add: cohend_def s u_def)
qed

section \<open>Powers of two\<close>

lemma pow2_pos [simp]: "0 < pow2 k" by (simp add: pow2_def)
lemma pow2_nonneg [simp]: "0 \<le> pow2 k" by (simp add: pow2_def)
lemma pow2_ne0 [simp]: "pow2 k \<noteq> 0" by (simp add: pow2_def)
lemma pow2_not_neg [simp]: "\<not> pow2 k < 0" by (simp add: not_less)

lemma pow2_mult [simp]: "pow2 a * pow2 b = pow2 (a + b)"
  by (simp add: pow2_def power_int_add)

lemma pow2_div [simp]: "pow2 a / pow2 b = pow2 (a - b)"
  by (simp add: pow2_def power_int_diff)

lemma pow2_double [simp]: "pow2 a + pow2 a = pow2 (a + 1)"
  by (simp add: pow2_def power_int_add)

lemma pow2_half [simp]: "pow2 a / 2 = pow2 (a - 1)"
  by (simp add: pow2_def power_int_diff)

lemma pow2_twice [simp]: "2 * pow2 a = pow2 (a + 1)" "pow2 a * 2 = pow2 (a + 1)"
  by (simp_all add: pow2_def power_int_add)

lemma pow2_quarter [simp]: "pow2 a / 4 = pow2 (a - 2)"
  using power_int_diff [of "2::real" a 2] by (simp add: pow2_def)

lemma pow2_diff_half [simp]: "a = b + 1 \<Longrightarrow> pow2 a - pow2 b = pow2 b"
  by (simp add: pow2_def power_int_add)

lemma sqrt_pow2 [simp]: "even k \<Longrightarrow> sqrt (pow2 k) = pow2 (k div 2)"
proof -
  assume "even k"
  then have k: "k = k div 2 + k div 2" by presburger
  have "pow2 k = pow2 (k div 2) * pow2 (k div 2)"
    by (subst k) (simp only: pow2_mult)
  then show ?thesis by (simp add: real_sqrt_mult del: pow2_mult)
qed

lemma pow2_mono: "a \<le> b \<Longrightarrow> pow2 a \<le> pow2 b"
  unfolding pow2_def by (rule two_powi_mono)

lemma binary64_pow2 [simp]:
  assumes "- 1074 \<le> k" "k < 1024"
  shows "binary64 (pow2 k) = Finite (pow2 k)"
proof -
  have "\<bar>real_of_int 1 * 2 powi k\<bar> < (2::real) powi max_binade"
    using power_int_strict_increasing [of k max_binade "2::real"] assms(2)
    by (simp add: max_binade_def)
  then have "binary64 (real_of_int 1 * 2 powi k) = Finite (real_of_int 1 * 2 powi k)"
    using assms(1) by (intro binary64_exact_below) simp_all
  then show ?thesis by (simp add: pow2_def)
qed

lemma binary64_neg_pow2 [simp]:
  assumes "- 1074 \<le> k" "k < 1024"
  shows "binary64 (- pow2 k) = Finite (- pow2 k)"
  by (simp add: binary64_neg assms)

lemma binary64_pow2_overflow [simp]:
  assumes "1024 \<le> k"
  shows "binary64 (pow2 k) = PosInf"
proof -
  have "2 powi max_binade \<le> \<bar>pow2 k\<bar>"
    using two_powi_mono [of max_binade k] assms by (simp add: pow2_def max_binade_def)
  then show ?thesis using binary64_overflow [of "pow2 k"] by simp
qed

lemma binary64_pow2_underflow [simp]:
  assumes "k \<le> - 1075"
  shows "binary64 (pow2 k) = Finite 0"
proof -
  have "\<bar>pow2 k\<bar> \<le> 2 powi (- 1075)"
    using two_powi_mono [OF assms] by (simp add: pow2_def)
  then show ?thesis by (rule binary64_underflow)
qed

section \<open>Exact arithmetic\<close>

lemma exact_apply [simp]: "exact x = Finite x"
  by (simp add: exact_def)

lemma asarray_exact: "asarray exact d = map Finite d"
  by (simp add: asarray_def fun_eq_iff)

lemma np_sum_Finite_aux:
  "foldl (fadd exact) (Finite a) (map (\<lambda>v. Finite (f v)) d) = Finite (a + (\<Sum>v\<leftarrow>d. f v))"
  by (induction d arbitrary: a) (simp_all add: add.assoc)

lemma np_sum_Finite: "np_sum exact (map (\<lambda>v. Finite (f v)) d) = Finite (\<Sum>v\<leftarrow>d. f v)"
  by (simp add: np_sum_def np_sum_Finite_aux)

lemma np_mean_Finite: "d \<noteq> [] \<Longrightarrow> np_mean exact (map Finite d) = Finite (spec_mean d)"
  using np_sum_Finite [of "\<lambda>v. v" d]
  by (simp add: np_mean_def float_of_int_def spec_mean_def)

lemma np_var_Finite:
  assumes "2 \<le> length d"
  shows "np_var exact (map Finite d) 1 = Finite (spec_var d)"
proof -
  from assms have ne: "d \<noteq> []" by auto
  have m: "np_mean exact (map Finite d) = Finite (spec_mean d)" by (rule np_mean_Finite [OF ne])
  have x2: "map (\<lambda>e. fmul exact e e) (map (\<lambda>v. fsub exact v (Finite (spec_mean d))) (map Finite d))
        = map (\<lambda>v. Finite ((v - spec_mean d)\<^sup>2)) d"
    by (simp add: fsub_def power2_eq_square)
  from assms have n: "max (int (length d) - 1) 0 = int (length d) - 1"
    "real_of_int (int (length d) - 1) = real (length d) - 1" "real (length d) - 1 \<noteq> 0"
    by simp_all
  show ?thesis
    unfolding np_var_def Let_def m x2 np_sum_Finite length_map n(1) float_of_int_def n(2)
    using n(3) by (simp add: spec_var_def)
qed

lemma spec_var_nonneg: "2 \<le> length d \<Longrightarrow> 0 \<le> spec_var d"
  unfolding spec_var_def
  by (intro divide_nonneg_nonneg sum_list_nonneg) auto

lemma spec_pooled_var_nonneg:
  assumes "2 \<le> length d1" "2 \<le> length d2"
  shows "0 \<le> spec_pooled_var d1 d2"
  unfolding spec_pooled_var_def
  using assms spec_var_nonneg [OF assms(1)] spec_var_nonneg [OF assms(2)]
  by (intro divide_nonneg_nonneg add_nonneg_nonneg mult_nonneg_nonneg) auto

lemma pooled_std_Finite:
  assumes "2 \<le> length d1" "2 \<le> length d2"
  shows "pooled_std exact d1 d2 = Inr (Finite (spec_pooled_sd d1 d2))"
proof -
  have nz: "real_of_int (int (length d1) + int (length d2) - 2) \<noteq> 0"
    using assms by simp
  have "fdiv exact (fadd exact (fmul exact (float_of_int (int (length d1) - 1)) (np_var exact (map Finite d1) 1))
                   (fmul exact (float_of_int (int (length d2) - 1)) (np_var exact (map Finite d2) 1)))
             (float_of_int (int (length d1) + int (length d2) - 2))
        = Finite (spec_pooled_var d1 d2)"
    using nz
    by (simp add: np_var_Finite assms float_of_int_def spec_pooled_var_def)
  then show ?thesis
    using spec_pooled_var_nonneg [OF assms]
    by (simp add: pooled_std_def Let_def spec_pooled_sd_def asarray_exact)
qed

lemma cohend_large:
  assumes "2 \<le> length d1" "2 \<le> length d2"
  shows "cohend exact d1 d2
         = Inr (fdiv exact (Finite (spec_mean d1 - spec_mean d2)) (Finite (spec_pooled_sd d1 d2)))"
proof -
  from assms have "d1 \<noteq> []" "d2 \<noteq> []" by auto
  then show ?thesis
    by (simp add: cohend_def pooled_std_Finite [OF assms] np_mean_Finite fsub_def asarray_exact)
qed

lemma cohend_regular:
  assumes "2 \<le> length d1" "2 \<le> length d2" "0 < spec_pooled_var d1 d2"
  shows "cohend exact d1 d2 = Inr (Finite ((spec_mean d1 - spec_mean d2) / spec_pooled_sd d1 d2))"
proof -
  from assms(3) have "spec_pooled_sd d1 d2 \<noteq> 0"
    by (simp add: spec_pooled_sd_def)
  then show ?thesis
    by (simp add: cohend_large [OF assms(1,2)])
qed

lemma spec_pooled_var_commute: "spec_pooled_var d2 d1 = spec_pooled_var d1 d2"
  by (simp add: spec_pooled_var_def add.commute)

subsection \<open>Scaling\<close>

lemma spec_mean_scale: "spec_mean (map (\<lambda>x. k * x) d) = k * spec_mean d"
  by (simp add: spec_mean_def sum_list_const_mult)

lemma spec_var_scale: "spec_var (map (\<lambda>x. k * x) d) = k\<^sup>2 * spec_var d"
proof -
  have "(\<Sum>x\<leftarrow>map (\<lambda>x. k * x) d. (x - k * spec_mean d)\<^sup>2)
        = (\<Sum>x\<leftarrow>d. k\<^sup>2 * (x - spec_mean d)\<^sup>2)"
    by (simp add: comp_def right_diff_distrib [symmetric] power_mult_distrib)
  also have "\<dots> = k\<^sup>2 * (\<Sum>x\<leftarrow>d. (x - spec_mean d)\<^sup>2)"
    by (rule sum_list_const_mult)
  finally show ?thesis
    by (simp add: spec_var_def spec_mean_scale)
qed

lemma spec_pooled_var_scale:
  "spec_pooled_var (map (\<lambda>x. k * x) d1) (map (\<lambda>x. k * x) d2) = k\<^sup>2 * spec_pooled_var d1 d2"
proof -
  have "spec_pooled_var (map (\<lambda>x. k * x) d1) (map (\<lambda>x. k * x) d2)
        = ((real (length d1) - 1) * (k\<^sup>2 * spec_var d1)
           + (real (length d2) - 1) * (k\<^sup>2 * spec_var d2))
          / (real (length d1) + real (length d2) - 2)"
    by (simp only: spec_pooled_var_def spec_var_scale length_map)
  also have "\<dots> = k\<^sup>2 * spec_pooled_var d1 d2"
    by (simp add: spec_pooled_var_def algebra_simps add_divide_distrib)
  finally show ?thesis .
qed

lemma spec_pooled_sd_scale:
  "0 < k \<Longrightarrow> spec_pooled_sd (map (\<lambda>x. k * x) d1) (map (\<lambda>x. k * x) d2) = k * spec_pooled_sd d1 d2"
  by (simp add: spec_pooled_sd_def spec_pooled_var_scale real_sqrt_mult)

lemma fdiv_scale:
  assumes "0 < k"
  shows "fdiv exact (Finite (k * a)) (Finite (k * s)) = fdiv exact (Finite a) (Finite s)"
  using assms by (simp add: zero_less_mult_iff)

lemma cohend_scale:
  assumes "0 < k"
  shows "cohend exact (map (\<lambda>x. k * x) d1) (map (\<lambda>x. k * x) d2) = cohend exact d1 d2"
proof (cases "2 \<le> length d1 \<and> 2 \<le> length d2")
  case True
  then have l: "2 \<le> length (map (\<lambda>x. k * x) d1)" "2 \<le> length (map (\<lambda>x. k * x) d2)" by simp_all
  have "fdiv exact (Finite (k * spec_mean d1 - k * spec_mean d2)) (Finite (k * spec_pooled_sd d1 d2))
        = fdiv exact (Finite (spec_mean d1 - spec_mean d2)) (Finite (spec_pooled_sd d1 d2))"
    using fdiv_scale [OF assms, of "spec_mean d1 - spec_mean d2" "spec_pooled_sd d1 d2"]
    by (simp only: right_diff_distrib)
  then show ?thesis
    using True
    by (simp only: cohend_large [OF l] cohend_large spec_mean_scale
        spec_pooled_sd_scale [OF assms])
next
  case False
  then have "length d1 < 2 \<or> length d2 < 2" by auto
  then show ?thesis
    by (simp add: cohend_small [OF ieee_exact])
qed

subsection \<open>Translation\<close>

lemma spec_mean_shift: "d \<noteq> [] \<Longrightarrow> spec_mean (map (\<lambda>x. x + c) d) = spec_mean d + c"
  by (simp add: spec_mean_def sum_list_addf comp_def sum_list_triv add_divide_distrib)

lemma spec_var_shift: "d \<noteq> [] \<Longrightarrow> spec_var (map (\<lambda>x. x + c) d) = spec_var d"
  by (simp add: spec_var_def spec_mean_shift comp_def)

lemma spec_pooled_var_shift:
  "d1 \<noteq> [] \<Longrightarrow> d2 \<noteq> [] \<Longrightarrow>
   spec_pooled_var (map (\<lambda>x. x + c) d1) (map (\<lambda>x. x + c) d2) = spec_pooled_var d1 d2"
  by (simp add: spec_pooled_var_def spec_var_shift)

lemma cohend_shift:
  "cohend exact (map (\<lambda>x. x + c) d1) (map (\<lambda>x. x + c) d2) = cohend exact d1 d2"
proof (cases "2 \<le> length d1 \<and> 2 \<le> length d2")
  case True
  then have l: "2 \<le> length (map (\<lambda>x. x + c) d1)" "2 \<le> length (map (\<lambda>x. x + c) d2)"
    by simp_all
  from True have ne: "d1 \<noteq> []" "d2 \<noteq> []" by auto
  show ?thesis
    using True ne
    by (simp add: cohend_large [OF l] cohend_large spec_mean_shift
        spec_pooled_sd_def spec_pooled_var_shift)
next
  case False
  then have "length d1 < 2 \<or> length d2 < 2" by auto
  then show ?thesis
    by (simp add: cohend_small [OF ieee_exact])
qed

lemma cohend_shift_first:
  assumes "2 \<le> length d1" "2 \<le> length d2" "0 < spec_pooled_var d1 d2"
  shows "\<exists>x. cohend exact d1 d2 = Inr (Finite x)
           \<and> cohend exact (map (\<lambda>v. v + c) d1) d2 = Inr (Finite (x + c / spec_pooled_sd d1 d2))"
proof -
  from assms have ne: "d1 \<noteq> []" by auto
  have l: "2 \<le> length (map (\<lambda>v. v + c) d1)" using assms(1) by simp
  have pv: "spec_pooled_var (map (\<lambda>v. v + c) d1) d2 = spec_pooled_var d1 d2"
    by (simp add: spec_pooled_var_def spec_var_shift [OF ne])
  then have p: "0 < spec_pooled_var (map (\<lambda>v. v + c) d1) d2" using assms(3) by simp
  have sd: "spec_pooled_sd (map (\<lambda>v. v + c) d1) d2 = spec_pooled_sd d1 d2"
    by (simp add: spec_pooled_sd_def pv)
  show ?thesis
    by (simp add: cohend_regular [OF assms] cohend_regular [OF l assms(2) p] sd
        spec_mean_shift [OF ne] add_divide_distrib diff_divide_distrib)
qed

subsection \<open>Reordering\<close>

lemma sum_list_map_mset:
  fixes f :: "real \<Rightarrow> real"
  assumes "mset d = mset e"
  shows "(\<Sum>x\<leftarrow>d. f x) = (\<Sum>x\<leftarrow>e. f x)"
proof -
  have "(\<Sum>x\<leftarrow>d. f x) = sum_mset (image_mset f (mset d))"
    by (simp add: sum_mset_sum_list [symmetric])
  also have "\<dots> = sum_mset (image_mset f (mset e))"
    by (simp only: assms)
  also have "\<dots> = (\<Sum>x\<leftarrow>e. f x)"
    by (simp add: sum_mset_sum_list [symmetric])
  finally show ?thesis .
qed

lemma spec_mean_mset: "mset d = mset e \<Longrightarrow> spec_mean d = spec_mean e"
  using sum_list_map_mset [of d e "\<lambda>x. x"] mset_eq_length [of d e]
  by (simp add: spec_mean_def)

lemma spec_var_mset: "mset d = mset e \<Longrightarrow> spec_var d = spec_var e"
  using sum_list_map_mset [of d e "\<lambda>x. (x - spec_mean e)\<^sup>2"] mset_eq_length [of d e]
    spec_mean_mset [of d e]
  by (simp add: spec_var_def)

lemma np_mean_mset:
  assumes "mset d = mset e"
  shows "np_mean exact (map Finite d) = np_mean exact (map Finite e)"
proof (cases "d = []")
  case True
  with assms have "e = []" by simp
  with True show ?thesis by simp
next
  case False
  with assms have "e \<noteq> []" by auto
  with False show ?thesis
    by (simp add: np_mean_Finite spec_mean_mset [OF assms])
qed

lemma np_var_mset:
  assumes "mset d = mset e"
  shows "np_var exact (map Finite d) 1 = np_var exact (map Finite e) 1"
proof (cases "2 \<le> length d")
  case True
  with mset_eq_length [OF assms] have "2 \<le> length e" by simp
  with True show ?thesis
    by (simp add: np_var_Finite spec_var_mset [OF assms])
next
  case False
  with mset_eq_length [OF assms] have "length d < 2" "length e < 2" by simp_all
  then show ?thesis
    using np_var_small [OF ieee_exact, of d] np_var_small [OF ieee_exact, of e]
    by (simp add: asarray_exact)
qed

lemma cohend_summary:
  assumes "length d1 = length e1" "np_mean exact (map Finite d1) = np_mean exact (map Finite e1)" "np_var exact (map Finite d1) 1 = np_var exact (map Finite e1) 1"
    and "length d2 = length e2" "np_mean exact (map Finite d2) = np_mean exact (map Finite e2)" "np_var exact (map Finite d2) 1 = np_var exact (map Finite e2) 1"
  shows "cohend exact d1 d2 = cohend exact e1 e2"
  unfolding cohend_def pooled_std_def asarray_exact assms ..

lemma cohend_perm:
  assumes "mset d1 = mset e1" "mset d2 = mset e2"
  shows "cohend exact d1 d2 = cohend exact e1 e2"
  by (rule cohend_summary
      [OF mset_eq_length [OF assms(1)] np_mean_mset [OF assms(1)] np_var_mset [OF assms(1)]
          mset_eq_length [OF assms(2)] np_mean_mset [OF assms(2)] np_var_mset [OF assms(2)]])

section \<open>Rounding next to a power of two\<close>

lemma pow2_0 [simp]: "pow2 0 = 1" by (simp add: pow2_def)

lemma pow2_square [simp]: "(pow2 a)\<^sup>2 = pow2 (2 * a)"
  by (simp add: power2_eq_square)

lemma round_even_near:
  assumes "\<bar>t\<bar> < 1 / 2"
  shows "round_even (of_int n + t) = n"
proof (cases "0 \<le> t")
  case True
  with assms have "\<lfloor>real_of_int n + t\<rfloor> = n" by (intro floor_unique) simp_all
  with assms True show ?thesis by (simp add: round_even_def)
next
  case False
  with assms have "\<lfloor>real_of_int n + t\<rfloor> = n - 1" by (intro floor_unique) simp_all
  with assms False show ?thesis by (simp add: round_even_def Let_def)
qed

lemma binary64_near:
  assumes "2 powi E \<le> \<bar>x\<bar>" "\<bar>x\<bar> < 2 powi (E + 1)" "- 1022 \<le> E"
    and "x = (real_of_int n + t) * 2 powi (E - 52)" "\<bar>t\<bar> < 1 / 2"
    and "\<bar>real_of_int n * 2 powi (E - 52)\<bar> < 2 powi max_binade"
  shows "binary64 x = Finite (real_of_int n * 2 powi (E - 52))"
proof -
  have "0 < (2::real) powi E" by simp
  with assms(1) have "0 < \<bar>x\<bar>" by linarith
  then have x0: "x \<noteq> 0" by simp
  have "\<lfloor>log 2 \<bar>x\<bar>\<rfloor> = E" by (rule binade_unique [OF assms(1,2)])
  with assms(3) have k: "quantum x = E - 52" by (simp add: quantum_def)
  have "x / 2 powi (E - 52) = real_of_int n + t"
    by (simp add: assms(4))
  then have "round_even (x / 2 powi quantum x) = n"
    unfolding k using round_even_near [OF assms(5)] by simp
  then show ?thesis
    using x0 assms(6) by (simp add: binary64_def Let_def k)
qed

lemma absorb_above:
  assumes "- 1022 \<le> a" "a < 1024" "0 \<le> e" "e < pow2 (a - 53)"
  shows "binary64 (pow2 a + e) = Finite (pow2 a)"
proof -
  have p: "pow2 a = 2 ^ 52 * 2 powi (a - 52)"
    using power_int_add [of "2::real" 52 "a - 52"] by (simp add: pow2_def)
  have h: "pow2 (a - 53) = (1 / 2) * 2 powi (a - 52)"
    using power_int_add [of "2::real" "- 1" "a - 52"] by (simp add: pow2_def)
  have lt: "pow2 (a - 53) < pow2 a"
    unfolding pow2_def by (rule power_int_strict_increasing) simp_all
  define t where "t = e / 2 powi (a - 52)"
  have t: "\<bar>t\<bar> < 1 / 2"
    using assms(3,4) unfolding t_def h by (simp add: pos_divide_less_eq)
  have x: "pow2 a + e = (real_of_int (2 ^ 52) + t) * 2 powi (a - 52)"
    by (simp add: t_def p algebra_simps)
  have "binary64 (pow2 a + e) = Finite (real_of_int (2 ^ 52) * 2 powi (a - 52))"
  proof (rule binary64_near [where E = a and t = t, OF _ _ assms(1) x t])
    show "2 powi a \<le> \<bar>pow2 a + e\<bar>" using assms(3) by (simp add: pow2_def)
    have "pow2 a + e < pow2 a + pow2 a" using assms(4) lt by linarith
    then show "\<bar>pow2 a + e\<bar> < 2 powi (a + 1)"
      using assms(3) by (simp add: pow2_def power_int_add)
    have "(2::real) powi a < 2 powi max_binade"
      by (rule power_int_strict_increasing) (use assms(2) in \<open>simp_all add: max_binade_def\<close>)
    then show "\<bar>real_of_int (2 ^ 52) * 2 powi (a - 52)\<bar> < 2 powi max_binade"
      using p by (simp add: pow2_def)
  qed
  then show ?thesis using p by simp
qed

lemma absorb_below:
  assumes "- 1021 \<le> a" "a < 1024" "0 < e" "e < pow2 (a - 54)"
  shows "binary64 (pow2 a - e) = Finite (pow2 a)"
proof -
  have p: "pow2 a = 2 ^ 53 * 2 powi (a - 53)"
    using power_int_add [of "2::real" 53 "a - 53"] by (simp add: pow2_def)
  have h: "pow2 (a - 54) = (1 / 2) * 2 powi (a - 53)"
    using power_int_add [of "2::real" "- 1" "a - 53"] by (simp add: pow2_def)
  have q: "pow2 a = 2 * pow2 (a - 1)"
    using power_int_add [of "2::real" 1 "a - 1"] by (simp add: pow2_def)
  have lt: "pow2 (a - 54) < pow2 (a - 1)"
    unfolding pow2_def by (rule power_int_strict_increasing) simp_all
  define t where "t = - e / 2 powi (a - 53)"
  have t: "\<bar>t\<bar> < 1 / 2"
    using assms(3,4) unfolding t_def h by (simp add: pos_divide_less_eq)
  have x: "pow2 a - e = (real_of_int (2 ^ 53) + t) * 2 powi (a - 1 - 52)"
    by (simp add: t_def p algebra_simps)
  have le: "- 1022 \<le> a - 1" using assms(1) by simp
  have "binary64 (pow2 a - e) = Finite (real_of_int (2 ^ 53) * 2 powi (a - 1 - 52))"
  proof (rule binary64_near [where E = "a - 1" and t = t, OF _ _ le x t])
    have pos: "pow2 (a - 1) \<le> pow2 a - e" using assms(4) lt q by linarith
    then show "2 powi (a - 1) \<le> \<bar>pow2 a - e\<bar>" by (simp add: pow2_def)
    have "0 < pow2 a - e" using pos pow2_pos [of "a - 1"] by linarith
    then show "\<bar>pow2 a - e\<bar> < 2 powi (a - 1 + 1)"
      using assms(3) by (simp add: pow2_def)
    have "(2::real) powi a < 2 powi max_binade"
      by (rule power_int_strict_increasing) (use assms(2) in \<open>simp_all add: max_binade_def\<close>)
    then show "\<bar>real_of_int (2 ^ 53) * 2 powi (a - 1 - 52)\<bar> < 2 powi max_binade"
      using p by (simp add: pow2_def)
  qed
  then show ?thesis using p by simp
qed

lemma pow2_small: "pow2 1 = 2" "pow2 2 = 4" "pow2 4 = 16" "pow2 7 = 128"
  by (simp_all add: pow2_def)

lemma absorb_2_60: "binary64 (2 + pow2 60) = Finite (pow2 60)"
  using absorb_above [of 60 2] by (simp add: pow2_small add.commute)

lemma absorb_3_55: "binary64 (3 + pow2 55) = Finite (pow2 55)"
  using absorb_above [of 55 3] by (simp add: pow2_small add.commute)

lemma absorb_9_110: "binary64 (9 + pow2 110) = Finite (pow2 110)"
proof -
  have "pow2 4 \<le> pow2 57" by (rule pow2_mono) simp
  then have "9 < pow2 57" by (simp add: pow2_small)
  then show ?thesis using absorb_above [of 110 9] by (simp add: add.commute)
qed

lemma absorb_111_4: "binary64 (pow2 111 + 4) = Finite (pow2 111)"
proof -
  have "pow2 4 \<le> pow2 58" by (rule pow2_mono) simp
  then have "4 < pow2 58" by (simp add: pow2_small)
  then show ?thesis using absorb_above [of 111 4] by simp
qed

lemma absorb_55_1: "binary64 (pow2 55 - 1) = Finite (pow2 55)"
  using absorb_below [of 55 1] by (simp add: pow2_small)

lemma absorb_neg_55_1: "binary64 (- pow2 55 - 1) = Finite (- pow2 55)"
proof -
  have "binary64 (pow2 55 + 1) = Finite (pow2 55)"
    using absorb_above [of 55 1] by (simp add: pow2_small)
  then have "binary64 (- (pow2 55 + 1)) = Finite (- pow2 55)"
    by (simp only: binary64_neg fneg.simps)
  moreover have "- pow2 55 - 1 = - (pow2 55 + 1)" by simp
  ultimately show ?thesis by (simp only:)
qed

lemmas absorbs = absorb_3_55 absorb_9_110 absorb_111_4 absorb_55_1 absorb_neg_55_1

lemma pow2_inverse [simp]: "1 / pow2 a = pow2 (- a)"
  by (simp add: pow2_def power_int_minus divide_inverse)

lemma c8_arr:
  "asarray binary64 [3, pow2 55, - pow2 55] = [Finite 3, Finite (pow2 55), Finite (- pow2 55)]"
  "asarray binary64 [pow2 55, - pow2 55, 3] = [Finite (pow2 55), Finite (- pow2 55), Finite 3]"
  by (simp_all add: asarray_def)

lemma c8_a: "np_mean binary64 [Finite 3, Finite (pow2 55), Finite (- pow2 55)] = Finite 0"
  by (simp add: np_mean_def np_sum_def float_of_int_def absorbs)

lemma c8_b: "np_var binary64 [Finite 3, Finite (pow2 55), Finite (- pow2 55)] 1 = Finite (pow2 110)"
  by (simp add: np_var_def c8_a np_sum_def float_of_int_def fsub_def absorbs)

lemma c8_c: "np_mean binary64 [Finite (pow2 55), Finite (- pow2 55), Finite 3] = Finite 1"
  by (simp add: np_mean_def np_sum_def float_of_int_def absorbs)

lemma c8_d: "np_var binary64 [Finite (pow2 55), Finite (- pow2 55), Finite 3] 1 = Finite (pow2 110)"
  by (simp add: np_var_def c8_c np_sum_def float_of_int_def fsub_def absorbs)

section \<open>The call returns the value and appends warnings\<close>

lemma warn_warn: "warn ws (warn vs g) = warn (vs @ ws) g"
  by (simp add: warn_def)

lemma warn_Nil [simp]: "warn [] g = g"
  by (simp add: warn_def)

lemma np_multiply_self: "map (\<lambda>(u, v). fmul r u v) (zip x x) = map (\<lambda>e. fmul r e e) x"
  by (induction x) simp_all

lemma if_warn: "(if c then warn ws g else g) = warn (if c then ws else []) g"
  by simp

lemma np_var_st_appends:
  "\<exists>ws. \<forall>g. np_var_st r a 1 g = (np_var r a 1, warn ws g)"
  apply (rule exI, rule allI)
  apply (simp only: np_var_st_def np_var_def np_mean_def np_sum_st_def fdiv_st_def
      np_subtract_st_def np_multiply_st_def np_multiply_self Let_def split_conv if_warn
      warn_warn)
  done

lemma np_mean_st_appends:
  "\<exists>ws. \<forall>g. np_mean_st r a g = (np_mean r a, warn ws g)"
  apply (rule exI, rule allI)
  apply (simp only: np_mean_st_def np_mean_def np_sum_st_def fdiv_st_def Let_def split_conv
      if_warn warn_warn)
  done

lemma cohend_call_appends:
  "\<exists>ws. \<forall>g. cohend_call r g d1 d2 = (cohend r d1 d2, warn ws g)"
proof -
  obtain w1 where w1: "\<And>g. np_var_st r (asarray r d1) 1 g = (np_var r (asarray r d1) 1, warn w1 g)"
    using np_var_st_appends by blast
  obtain w2 where w2: "\<And>g. np_var_st r (asarray r d2) 1 g = (np_var r (asarray r d2) 1, warn w2 g)"
    using np_var_st_appends by blast
  obtain m1 where m1: "\<And>g. np_mean_st r (asarray r d1) g = (np_mean r (asarray r d1), warn m1 g)"
    using np_mean_st_appends by blast
  obtain m2 where m2: "\<And>g. np_mean_st r (asarray r d2) g = (np_mean r (asarray r d2), warn m2 g)"
    using np_mean_st_appends by blast
  show ?thesis
  proof (cases "pooled_std r d1 d2")
    case (Inl e)
    show ?thesis
      apply (rule exI, rule allI)
      using Inl
      apply (simp only: cohend_call_def cohend_def pooled_std_def w1 w2 m1 m2 fmul_st_def
          fadd_st_def fdiv_st_def fsub_st_def Let_def split_conv warn_warn sum.case)
          done
  next
    case (Inr s)
    show ?thesis
      apply (rule exI, rule allI)
      using Inr
      apply (simp only: cohend_call_def cohend_def pooled_std_def w1 w2 m1 m2 fmul_st_def
          fadd_st_def fdiv_st_def fsub_st_def Let_def split_conv warn_warn sum.case)
          done
  qed
qed

section \<open>Summaries and one-sample shifts\<close>

lemma cohend_summary_any:
  assumes "length d1 = length e1" "np_mean r (asarray r d1) = np_mean r (asarray r e1)"
    "np_var r (asarray r d1) 1 = np_var r (asarray r e1) 1"
    and "length d2 = length e2" "np_mean r (asarray r d2) = np_mean r (asarray r e2)"
    "np_var r (asarray r d2) 1 = np_var r (asarray r e2) 1"
  shows "cohend r d1 d2 = cohend r e1 e2"
  unfolding cohend_def pooled_std_def assms ..

lemma cohend_shift_second:
  assumes "2 \<le> length d1" "2 \<le> length d2" "0 < spec_pooled_var d1 d2"
  shows "\<exists>x. cohend exact d1 d2 = Inr (Finite x)
           \<and> cohend exact d1 (map (\<lambda>v. v + c) d2) = Inr (Finite (x - c / spec_pooled_sd d1 d2))"
proof -
  from assms have ne: "d2 \<noteq> []" by auto
  have l: "2 \<le> length (map (\<lambda>v. v + c) d2)" using assms(2) by simp
  have pv: "spec_pooled_var d1 (map (\<lambda>v. v + c) d2) = spec_pooled_var d1 d2"
    by (simp add: spec_pooled_var_def spec_var_shift [OF ne])
  then have p: "0 < spec_pooled_var d1 (map (\<lambda>v. v + c) d2)" using assms(3) by simp
  have sd: "spec_pooled_sd d1 (map (\<lambda>v. v + c) d2) = spec_pooled_sd d1 d2"
    by (simp add: spec_pooled_sd_def pv)
  show ?thesis
    by (simp add: cohend_regular [OF assms] cohend_regular [OF assms(1) l p] sd
        spec_mean_shift [OF ne] add_divide_distrib diff_divide_distrib)
qed

lemmas spec_eval = spec_pooled_sd_def spec_pooled_var_def spec_var_def spec_mean_def

section \<open>The claims\<close>

subsection \<open>C1: the formula\<close>




subsection \<open>C2: samples of fewer than two observations\<close>

text \<open>
  The body of \<open>cohend\<close> checks nothing and raises nothing. On a sample of one observation
  \<open>var\<close> divides \<open>0\<close> by \<open>max (1 - 1) 0 = 0\<close>, which is \<open>nan\<close>, and the \<open>nan\<close> goes through
  every later operation: the call returns \<open>nan\<close>, it does not fail.
\<close>

theorem cohend_small_sample_counterexample:
  "cohend binary64 [1] [1, 2, 3] = Inr NaN \<and> \<not> isl (cohend binary64 [1] [1, 2, 3])"
  by (simp add: cohend_eval)

text \<open>
  Claim C2, as amended. For every input where either sample has fewer than 2
  observations, or where \<open>n1 + n2 - 2 \<le> 0\<close>, \<open>cohend\<close> raises no error and returns \<open>nan\<close>.
\<close>

theorem cohend_small_sample_nan:
  assumes "length d1 < 2 \<or> length d2 < 2 \<or> int (length d1) + int (length d2) - 2 \<le> 0"
  shows "cohend binary64 d1 d2 = Inr NaN"
proof -
  from assms have "length d1 < 2 \<or> length d2 < 2" by linarith
  then show ?thesis by (rule cohend_small [OF ieee_binary64])
qed

theorem cohend_small_sample_nan_witness:
  "(length ([] :: real list) < 2 \<or> length [1, 2 :: real] < 2
     \<or> int (length ([] :: real list)) + int (length [1, 2 :: real]) - 2 \<le> 0)
   \<and> cohend binary64 [] [1, 2] = Inr NaN"
  using cohend_small_sample_nan [of "[]" "[1, 2]"] by simp

subsection \<open>C3: pooled standard deviation zero\<close>




subsection \<open>C4: swapping the samples\<close>

text \<open>
  Claim C4. Swapping the arguments negates the result: \<open>cohend A B = - cohend B A\<close>. In
  float64 this holds for every pair of samples (equal size, equal variance and a positive
  pooled variance are not needed): addition is commutative, and rounding to nearest is
  symmetric about zero. \<open>- nan\<close> is \<open>nan\<close>, the negation of \<open>inf\<close> is \<open>-inf\<close>, and a raised
  error stays the same error.
\<close>

theorem cohend_swap_negates:
  "cohend binary64 A B = map_sum id fneg (cohend binary64 B A)"
  by (rule cohend_swap [OF ieee_binary64])

theorem cohend_swap_negates_witness:
  "cohend binary64 [3, 4, 5] [0, 1, 2] = Inr (Finite 3)
   \<and> cohend binary64 [0, 1, 2] [3, 4, 5] = Inr (Finite (- 3))"
proof -
  have "cohend binary64 [3, 4, 5] [0, 1, 2] = Inr (Finite 3)"
    by (simp add: cohend_eval)
  then show ?thesis
    using cohend_swap_negates [of "[0, 1, 2]" "[3, 4, 5]"] by simp
qed

subsection \<open>C5: a sample against itself\<close>




subsection \<open>C6: scaling law\<close>




subsection \<open>C7: purity and determinism\<close>



subsection \<open>C8: only count, mean and variance are used\<close>




subsection \<open>C9: a finite result\<close>




subsection \<open>C10: translation\<close>




end
